theory Spec2Isabelle
  imports Complex_Main "HOL-Library.AList" "HOL-Library.Sublist"
begin

section \<open>WordleGuessr: feedback patterns, candidate filtering and scoring\<close>

text \<open>
  A shallow embedding of the engine functions of \<^verbatim>\<open>wordleGuessr.py\<close>:
  \<^verbatim>\<open>pattern_for\<close>, \<^verbatim>\<open>consistent_with\<close>, \<^verbatim>\<open>filter_candidates\<close>,
  \<^verbatim>\<open>position_frequencies\<close>, \<^verbatim>\<open>likelihood_score\<close>, \<^verbatim>\<open>best_likelihood_guess\<close>,
  \<^verbatim>\<open>entropy_of_guess\<close> and \<^verbatim>\<open>best_entropy_guess\<close>.

  Python strings are character lists (\<^typ>\<open>string\<close>). An exception raised by the
  source is the left injection of a sum type.
\<close>

subsection \<open>Floating-point numbers\<close>

text \<open>
  A Python \<^verbatim>\<open>float\<close> is a binary64 number. The floats of this program are finite,
  and a finite binary64 number is a real number: the model keeps a float as the
  \<^typ>\<open>real\<close> it denotes. The literals \<^verbatim>\<open>0.0\<close> and \<^verbatim>\<open>-1.0\<close>, the unary minus
  and the comparisons \<^verbatim>\<open>>\<close>, \<^verbatim>\<open>==\<close> are then exact. The operations that round
  are not fixed by the model: they are the fields of a record that every function computing
  with floats takes as its first argument, so that a theorem about all such records is a
  theorem about the rounding of the machine as well.
  \<^item> \<open>fl_truediv k n\<close> is \<^verbatim>\<open>k / n\<close> on two integers;
  \<^item> \<open>fl_of_int k\<close> is the conversion of an integer operand of a float operation;
  \<^item> \<open>fl_add\<close>, \<open>fl_mul\<close> are \<^verbatim>\<open>+\<close> and \<^verbatim>\<open>*\<close> on floats;
  \<^item> \<open>fl_log2\<close> is \<^verbatim>\<open>math.log2\<close> on a positive float;
  \<^item> \<open>fl_tenth\<close> is the literal \<^verbatim>\<open>0.1\<close>.
\<close>

record float_ops =
  fl_truediv :: "int \<Rightarrow> int \<Rightarrow> real"
  fl_of_int :: "int \<Rightarrow> real"
  fl_add :: "real \<Rightarrow> real \<Rightarrow> real"
  fl_mul :: "real \<Rightarrow> real \<Rightarrow> real"
  fl_log2 :: "real \<Rightarrow> real"
  fl_tenth :: real

text \<open>
  What the proofs about the scan need of the arithmetic on bucket sizes out of \<open>n\<close>
  candidates, and what binary64 with a \<^verbatim>\<open>log2\<close> of the right sign provides for every
  \<open>n\<close> that is the length of a list: the quotient of a positive integer \<open>k \<le> n\<close>
  by \<open>n\<close> is in \<open>(0, 1]\<close>, the logarithm of a number of \<open>(0, 1]\<close> is not
  positive, a product of two numbers that are not positive is not negative, and neither is
  a sum of two numbers that are not negative. (The fields are only ever applied to floats
  the program computes; what they do elsewhere is of no account.)
\<close>

definition float_ops_sane :: "float_ops \<Rightarrow> int \<Rightarrow> bool" where
  "float_ops_sane ops n \<longleftrightarrow>
     (\<forall>k. 0 < k \<and> k \<le> n \<longrightarrow> 0 < fl_truediv ops k n \<and> fl_truediv ops k n \<le> 1)
     \<and> (\<forall>p. 0 < p \<and> p \<le> 1 \<longrightarrow> fl_log2 ops p \<le> 0)
     \<and> (\<forall>a b. a \<le> 0 \<and> b \<le> 0 \<longrightarrow> 0 \<le> fl_mul ops a b)
     \<and> (\<forall>a b. 0 \<le> a \<and> 0 \<le> b \<longrightarrow> 0 \<le> fl_add ops a b)"

text \<open>The arithmetic without rounding, an instance of the record.\<close>

definition exact_ops :: float_ops where
  "exact_ops =
     \<lparr>fl_truediv = (\<lambda>k n. real_of_int k / real_of_int n), fl_of_int = real_of_int,
      fl_add = (+), fl_mul = (*), fl_log2 = log 2, fl_tenth = 1 / 10\<rparr>"

subsection \<open>Exceptions and counters\<close>

datatype py_error = IndexError | ZeroDivisionError | ValueError

text \<open>
  \<^verbatim>\<open>collections.Counter\<close>: a dictionary with integer values whose lookup of a
  missing key reads 0 (and does not insert the key).
\<close>

definition counter_get :: "('k \<rightharpoonup> int) \<Rightarrow> 'k \<Rightarrow> int" where
  "counter_get c k = (case c k of None \<Rightarrow> 0 | Some v \<Rightarrow> v)"

text \<open>\<^verbatim>\<open>c[k] += d\<close> on a Counter.\<close>

definition counter_add :: "('k \<rightharpoonup> int) \<Rightarrow> 'k \<Rightarrow> int \<Rightarrow> ('k \<rightharpoonup> int)" where
  "counter_add c k d = c(k \<mapsto> counter_get c k + d)"

subsection \<open>Wordle mechanics: \<^verbatim>\<open>pattern_for\<close>\<close>

text \<open>
  The first loop of \<^verbatim>\<open>pattern_for\<close>, over the indices it is given (the source
  runs it on \<^verbatim>\<open>range(5)\<close>). \<^verbatim>\<open>g[i]\<close> and \<^verbatim>\<open>s[i]\<close> raise IndexError out of
  range. The list \<^verbatim>\<open>s\<close> holds characters or \<^verbatim>\<open>None\<close> (a matched position is
  overwritten with \<^verbatim>\<open>None\<close>), so the keys of \<^verbatim>\<open>remaining\<close> are optional
  characters. \<^verbatim>\<open>res\<close> has five entries throughout, so \<^verbatim>\<open>res[i] = ...\<close> is in
  range for every index of \<^verbatim>\<open>range(5)\<close>.
\<close>

fun pattern_pass1 ::
  "nat list \<Rightarrow> string \<Rightarrow> char option list \<Rightarrow> string \<Rightarrow> (char option \<rightharpoonup> int)
   \<Rightarrow> py_error + (char option list \<times> string \<times> (char option \<rightharpoonup> int))" where
  "pattern_pass1 [] g s res remaining = Inr (s, res, remaining)"
| "pattern_pass1 (i # is) g s res remaining =
     (if i < length g \<and> i < length s then
        (if Some (g ! i) = s ! i
         then pattern_pass1 is g (s[i := None]) (res[i := CHR ''C'']) remaining
         else pattern_pass1 is g s res (counter_add remaining (s ! i) 1))
      else Inl IndexError)"

text \<open>The second loop of \<^verbatim>\<open>pattern_for\<close>.\<close>

fun pattern_pass2 ::
  "nat list \<Rightarrow> string \<Rightarrow> string \<Rightarrow> (char option \<rightharpoonup> int) \<Rightarrow> py_error + string" where
  "pattern_pass2 [] g res remaining = Inr res"
| "pattern_pass2 (i # is) g res remaining =
     (if res ! i = CHR ''C'' then pattern_pass2 is g res remaining
      else if i < length g then
        (let ch = g ! i in
         if counter_get remaining (Some ch) > 0
         then pattern_pass2 is g (res[i := CHR ''P'']) (counter_add remaining (Some ch) (- 1))
         else pattern_pass2 is g (res[i := CHR ''N'']) remaining)
      else Inl IndexError)"

definition pattern_for :: "string \<Rightarrow> string \<Rightarrow> py_error + string" where
  "pattern_for guess solution =
     (case pattern_pass1 [0..<5] guess (map Some solution) (replicate 5 (CHR ''N'')) Map.empty of
        Inl err \<Rightarrow> Inl err
      | Inr (s, res, remaining) \<Rightarrow> pattern_pass2 [0..<5] guess res remaining)"

subsection \<open>Candidate filter\<close>

definition consistent_with :: "string \<Rightarrow> string \<Rightarrow> string \<Rightarrow> py_error + bool" where
  "consistent_with guess pat candidate =
     (case pattern_for guess candidate of Inl err \<Rightarrow> Inl err | Inr p \<Rightarrow> Inr (p = pat))"

text \<open>
  The list comprehension \<^verbatim>\<open>[w for w in cands if consistent_with(guess, pat, w)]\<close>:
  it builds a new list and stops at the first exception. Nothing in it assigns to
  \<^verbatim>\<open>cands\<close>, which the model therefore passes by value.
\<close>

fun filter_candidates :: "string list \<Rightarrow> string \<Rightarrow> string \<Rightarrow> py_error + string list" where
  "filter_candidates [] guess pat = Inr []"
| "filter_candidates (w # cands) guess pat =
     (case consistent_with guess pat w of
        Inl err \<Rightarrow> Inl err
      | Inr b \<Rightarrow>
          (case filter_candidates cands guess pat of
             Inl err \<Rightarrow> Inl err
           | Inr rest \<Rightarrow> Inr (if b then w # rest else rest)))"

subsection \<open>Frequency scoring\<close>

text \<open>
  The inner loop of \<^verbatim>\<open>position_frequencies\<close>,
  \<^verbatim>\<open>for i,ch in enumerate(w): pos[i][ch] += 1\<close>; \<^verbatim>\<open>pos[i]\<close> raises IndexError
  past the five counters.
\<close>

fun position_frequencies_word ::
  "(nat \<times> char) list \<Rightarrow> (char \<rightharpoonup> int) list \<Rightarrow> py_error + (char \<rightharpoonup> int) list" where
  "position_frequencies_word [] pos = Inr pos"
| "position_frequencies_word ((i, ch) # rest) pos =
     (if i < length pos
      then position_frequencies_word rest (pos[i := counter_add (pos ! i) ch 1])
      else Inl IndexError)"

fun position_frequencies_loop ::
  "string list \<Rightarrow> (char \<rightharpoonup> int) list \<Rightarrow> py_error + (char \<rightharpoonup> int) list" where
  "position_frequencies_loop [] pos = Inr pos"
| "position_frequencies_loop (w # words) pos =
     (case position_frequencies_word (enumerate 0 w) pos of
        Inl err \<Rightarrow> Inl err
      | Inr pos' \<Rightarrow> position_frequencies_loop words pos')"

definition position_frequencies :: "string list \<Rightarrow> py_error + (char \<rightharpoonup> int) list" where
  "position_frequencies words = position_frequencies_loop words (replicate 5 Map.empty)"

fun likelihood_loop ::
  "float_ops \<Rightarrow> (nat \<times> char) list \<Rightarrow> (char \<rightharpoonup> int) list \<Rightarrow> char set \<Rightarrow> real
   \<Rightarrow> py_error + (char set \<times> real)" where
  "likelihood_loop ops [] pos_freq seen score = Inr (seen, score)"
| "likelihood_loop ops ((i, ch) # rest) pos_freq seen score =
     (if i < length pos_freq
      then likelihood_loop ops rest pos_freq (insert ch seen)
             (fl_add ops score (fl_of_int ops (counter_get (pos_freq ! i) ch)))
      else Inl IndexError)"

definition likelihood_score ::
  "float_ops \<Rightarrow> string \<Rightarrow> (char \<rightharpoonup> int) list \<Rightarrow> py_error + real" where
  "likelihood_score ops word pos_freq =
     (case likelihood_loop ops (enumerate 0 word) pos_freq {} 0 of
        Inl err \<Rightarrow> Inl err
      | Inr (seen, score) \<Rightarrow>
          Inr (fl_add ops score (fl_mul ops (fl_tenth ops) (fl_of_int ops (int (card seen))))))"

text \<open>The scan of \<^verbatim>\<open>best_likelihood_guess\<close>; the state is \<^verbatim>\<open>(best, best_s)\<close>.\<close>

fun best_likelihood_loop ::
  "float_ops \<Rightarrow> string list \<Rightarrow> (char \<rightharpoonup> int) list \<Rightarrow> string option \<times> real
   \<Rightarrow> py_error + (string option \<times> real)" where
  "best_likelihood_loop ops [] pf (best, best_s) = Inr (best, best_s)"
| "best_likelihood_loop ops (w # ws) pf (best, best_s) =
     (case likelihood_score ops w pf of
        Inl err \<Rightarrow> Inl err
      | Inr s \<Rightarrow>
          if s > best_s then best_likelihood_loop ops ws pf (Some w, s)
          else best_likelihood_loop ops ws pf (best, best_s))"

definition best_likelihood_guess ::
  "float_ops \<Rightarrow> string list \<Rightarrow> py_error + (string option \<times> real)" where
  "best_likelihood_guess ops candidates =
     (case position_frequencies candidates of
        Inl err \<Rightarrow> Inl err
      | Inr pf \<Rightarrow> best_likelihood_loop ops candidates pf (None, - 1))"

subsection \<open>Entropy scoring\<close>

text \<open>
  \<^verbatim>\<open>buckets = defaultdict(int)\<close> is an association list in insertion order (the order
  in which \<^verbatim>\<open>buckets.values()\<close> is read); a missing key reads 0.
  \<^verbatim>\<open>buckets[k] += 1\<close> updates the entry in place or appends a new one.
\<close>

definition defaultdict_get :: "('k \<times> int) list \<Rightarrow> 'k \<Rightarrow> int" where
  "defaultdict_get d k = (case map_of d k of None \<Rightarrow> 0 | Some v \<Rightarrow> v)"

definition bucket_incr :: "('k \<times> int) list \<Rightarrow> 'k \<Rightarrow> ('k \<times> int) list" where
  "bucket_incr d k = AList.update k (defaultdict_get d k + 1) d"

fun entropy_buckets ::
  "string \<Rightarrow> string list \<Rightarrow> (string \<times> int) list \<Rightarrow> py_error + (string \<times> int) list" where
  "entropy_buckets guess [] buckets = Inr buckets"
| "entropy_buckets guess (sol # candidates) buckets =
     (case pattern_for guess sol of
        Inl err \<Rightarrow> Inl err
      | Inr pat \<Rightarrow> entropy_buckets guess candidates (bucket_incr buckets pat))"

text \<open>
  The summation loop: \<^verbatim>\<open>k / n\<close> raises ZeroDivisionError when \<^verbatim>\<open>n\<close> is 0, and
  \<^verbatim>\<open>log2(p)\<close> raises ValueError unless \<^verbatim>\<open>p\<close> is positive. The quotient, the
  logarithm, the product \<^verbatim>\<open>-p * log2(p)\<close> and the sum \<^verbatim>\<open>ent += ...\<close> are float
  operations.
\<close>

fun entropy_sum :: "float_ops \<Rightarrow> int list \<Rightarrow> int \<Rightarrow> real \<Rightarrow> py_error + real" where
  "entropy_sum ops [] n ent = Inr ent"
| "entropy_sum ops (k # ks) n ent =
     (if n = 0 then Inl ZeroDivisionError
      else (let p = fl_truediv ops k n in
            if p \<le> 0 then Inl ValueError
            else entropy_sum ops ks n (fl_add ops ent (fl_mul ops (- p) (fl_log2 ops p)))))"

definition entropy_of_guess :: "float_ops \<Rightarrow> string \<Rightarrow> string list \<Rightarrow> py_error + real" where
  "entropy_of_guess ops guess candidates =
     (case entropy_buckets guess candidates [] of
        Inl err \<Rightarrow> Inl err
      | Inr buckets \<Rightarrow> entropy_sum ops (map snd buckets) (int (length candidates)) 0)"

text \<open>
  One iteration of the scan of \<^verbatim>\<open>best_entropy_guess\<close> on the state
  \<^verbatim>\<open>(best_g, best_e)\<close>. \<^verbatim>\<open>best_g not in candidates\<close> is true while
  \<^verbatim>\<open>best_g\<close> is \<^verbatim>\<open>None\<close>.
\<close>

definition best_entropy_step ::
  "float_ops \<Rightarrow> string list \<Rightarrow> string \<Rightarrow> string option \<times> real
   \<Rightarrow> py_error + (string option \<times> real)" where
  "best_entropy_step ops candidates g st =
     (case st of (best_g, best_e) \<Rightarrow>
        (case entropy_of_guess ops g candidates of
           Inl err \<Rightarrow> Inl err
         | Inr e \<Rightarrow>
             if e > best_e \<or>
                (e = best_e \<and> g \<in> set candidates \<and>
                 (case best_g of None \<Rightarrow> True | Some b \<Rightarrow> b \<notin> set candidates))
             then Inr (Some g, e)
             else Inr (best_g, best_e)))"

fun best_entropy_loop ::
  "float_ops \<Rightarrow> string list \<Rightarrow> string list \<Rightarrow> string option \<times> real
   \<Rightarrow> py_error + (string option \<times> real)" where
  "best_entropy_loop ops [] candidates st = Inr st"
| "best_entropy_loop ops (g # pool) candidates st =
     (case best_entropy_step ops candidates g st of
        Inl err \<Rightarrow> Inl err
      | Inr st' \<Rightarrow> best_entropy_loop ops pool candidates st')"

definition best_entropy_guess ::
  "float_ops \<Rightarrow> string list \<Rightarrow> string list \<Rightarrow> py_error + (string option \<times> real)" where
  "best_entropy_guess ops candidates allowed =
     (let pool = (if length candidates > 30 then allowed else candidates)
      in best_entropy_loop ops pool candidates (None, - 1))"

subsection \<open>Notions used in the statements and proofs\<close>

text \<open>
  The entropy of a list of outcomes as the specification writes it, in exact arithmetic:
  the buckets are the distinct outcomes, the size of a bucket is the number of occurrences
  of its outcome, and the entropy is \<open>- \<Sum> p * log2 p\<close> over the buckets, with
  \<open>p\<close> the size of the bucket divided by the length of the list.
\<close>

definition entropy_spec :: "'a list \<Rightarrow> real" where
  "entropy_spec ps =
     - (\<Sum>pat\<in>set ps. (real (count_list ps pat) / real (length ps))
                        * log 2 (real (count_list ps pat) / real (length ps)))"

text \<open>
  The invariant of the scan of \<^verbatim>\<open>best_entropy_guess\<close> after a non-empty prefix
  \<open>xs\<close> of the pool, when the state is \<open>(Some w, e)\<close>.
\<close>

definition best_so_far ::
  "float_ops \<Rightarrow> string list \<Rightarrow> string list \<Rightarrow> string \<Rightarrow> real \<Rightarrow> bool" where
  "best_so_far ops candidates xs w e \<longleftrightarrow>
     w \<in> set xs \<and> entropy_of_guess ops w candidates = Inr e
     \<and> (\<forall>w'\<in>set xs. \<exists>e'. entropy_of_guess ops w' candidates = Inr e' \<and> e' \<le> e)
     \<and> ((\<exists>w'\<in>set xs. w' \<in> set candidates \<and> entropy_of_guess ops w' candidates = Inr e)
          \<longrightarrow> w \<in> set candidates)
     \<and> List.find (\<lambda>w'. entropy_of_guess ops w' candidates = Inr e
                        \<and> (w' \<in> set candidates \<longleftrightarrow> w \<in> set candidates)) xs = Some w"

section \<open>Properties of the pattern engine\<close>

lemma counter_get_add: "counter_get (counter_add c k d) k' = (if k' = k then counter_get c k + d else counter_get c k')"
  by (simp add: counter_get_def counter_add_def)

lemma counter_get_empty: "counter_get Map.empty k = 0"
  by (simp add: counter_get_def)

lemma pattern_pass1_char:
  assumes "distinct is" "\<forall>i\<in>set is. i < length g \<and> i < length s"
  shows "\<exists>s' res' rem'. pattern_pass1 is g s res rem = Inr (s', res', rem')
     \<and> length res' = length res
     \<and> (\<forall>j < length res. res' ! j = (if j \<in> set is \<and> Some (g ! j) = s ! j then CHR ''C'' else res ! j))
     \<and> (\<forall>k. counter_get rem' k = counter_get rem k + int (length (filter (\<lambda>j. s ! j = k \<and> Some (g ! j) \<noteq> s ! j) is)))"
  using assms
proof (induction "is" arbitrary: s res rem)
  case Nil
  then show ?case by simp
next
  case (Cons i "is")
  have ir: "i < length g" "i < length s" and ni: "i \<notin> set is" and d: "distinct is"
    and r: "\<forall>j\<in>set is. j < length g \<and> j < length s"
    using Cons.prems by auto
  show ?case
  proof (cases "Some (g ! i) = s ! i")
    case True
    let ?s = "s[i := None]"
    have r': "\<forall>j\<in>set is. j < length g \<and> j < length ?s" using r by simp
    from Cons.IH[OF d r', of "res[i := CHR ''C'']" rem]
    obtain s' res' rem' where
      eq: "pattern_pass1 is g ?s (res[i := CHR ''C'']) rem = Inr (s', res', rem')"
      and len: "length res' = length res"
      and el: "\<forall>j < length res. res' ! j = (if j \<in> set is \<and> Some (g ! j) = ?s ! j then CHR ''C'' else res[i := CHR ''C''] ! j)"
      and cnt: "\<forall>k. counter_get rem' k = counter_get rem k + int (length (filter (\<lambda>j. ?s ! j = k \<and> Some (g ! j) \<noteq> ?s ! j) is))"
      by auto
    have same: "\<And>j. j \<in> set is \<Longrightarrow> ?s ! j = s ! j" using ni by (metis nth_list_update_neq)
    have f: "\<And>k. filter (\<lambda>j. ?s ! j = k \<and> Some (g ! j) \<noteq> ?s ! j) is = filter (\<lambda>j. s ! j = k \<and> Some (g ! j) \<noteq> s ! j) is"
      by (rule filter_cong) (auto simp: same)
    have "pattern_pass1 (i # is) g s res rem = Inr (s', res', rem')"
      using True ir eq by simp
    moreover have "\<forall>j < length res. res' ! j = (if j \<in> set (i # is) \<and> Some (g ! j) = s ! j then CHR ''C'' else res ! j)"
    proof (intro allI impI)
      fix j assume j: "j < length res"
      show "res' ! j = (if j \<in> set (i # is) \<and> Some (g ! j) = s ! j then CHR ''C'' else res ! j)"
      proof (cases "j = i")
        case True
        then show ?thesis using el j ni \<open>Some (g ! i) = s ! i\<close> by simp
      next
        case False
        then show ?thesis using el j same by (cases "j \<in> set is") auto
      qed
    qed
    moreover have "\<forall>k. counter_get rem' k = counter_get rem k + int (length (filter (\<lambda>j. s ! j = k \<and> Some (g ! j) \<noteq> s ! j) (i # is)))"
      using cnt f True by simp
    ultimately show ?thesis using len by blast
  next
    case False
    from Cons.IH[OF d r, of res "counter_add rem (s ! i) 1"]
    obtain s' res' rem' where
      eq: "pattern_pass1 is g s res (counter_add rem (s ! i) 1) = Inr (s', res', rem')"
      and len: "length res' = length res"
      and el: "\<forall>j < length res. res' ! j = (if j \<in> set is \<and> Some (g ! j) = s ! j then CHR ''C'' else res ! j)"
      and cnt: "\<forall>k. counter_get rem' k = counter_get (counter_add rem (s ! i) 1) k + int (length (filter (\<lambda>j. s ! j = k \<and> Some (g ! j) \<noteq> s ! j) is))"
      by auto
    have "pattern_pass1 (i # is) g s res rem = Inr (s', res', rem')"
      using False ir eq by simp
    moreover have "\<forall>j < length res. res' ! j = (if j \<in> set (i # is) \<and> Some (g ! j) = s ! j then CHR ''C'' else res ! j)"
      using el False by auto
    moreover have "\<forall>k. counter_get rem' k = counter_get rem k + int (length (filter (\<lambda>j. s ! j = k \<and> Some (g ! j) \<noteq> s ! j) (i # is)))"
      using cnt False by (auto simp: counter_get_add)
    ultimately show ?thesis using len by blast
  qed
qed

lemma pattern_pass1_short:
  "\<exists>i\<in>set is. \<not> (i < length g \<and> i < length s) \<Longrightarrow> pattern_pass1 is g s res rem = Inl IndexError"
  by (induction "is" arbitrary: s res rem) auto

lemma pattern_pass2_char:
  assumes "distinct is" "\<forall>i\<in>set is. i < length g \<and> i < length res"
  shows "\<exists>res'. pattern_pass2 is g res rem = Inr res'
     \<and> length res' = length res
     \<and> (\<forall>j < length res. j \<notin> set is \<longrightarrow> res' ! j = res ! j)
     \<and> (\<forall>j \<in> set is. if res ! j = CHR ''C'' then res' ! j = CHR ''C'' else res' ! j = CHR ''P'' \<or> res' ! j = CHR ''N'')
     \<and> (\<forall>c. int (length (filter (\<lambda>j. res ! j \<noteq> CHR ''C'' \<and> g ! j = c \<and> res' ! j = CHR ''P'') is)) \<le> max 0 (counter_get rem (Some c)))"
  using assms
proof (induction "is" arbitrary: res rem)
  case Nil
  then show ?case by simp
next
  case (Cons i "is")
  have ir: "i < length g" "i < length res" and ni: "i \<notin> set is" and d: "distinct is"
    and r: "\<forall>j\<in>set is. j < length g \<and> j < length res"
    using Cons.prems by auto
  consider (c) "res ! i = CHR ''C''"
    | (p) "res ! i \<noteq> CHR ''C''" "counter_get rem (Some (g ! i)) > 0"
    | (n) "res ! i \<noteq> CHR ''C''" "\<not> counter_get rem (Some (g ! i)) > 0" by blast
  then show ?case
  proof cases
    case c
    from Cons.IH[OF d r, of rem] obtain res' where
      eq: "pattern_pass2 is g res rem = Inr res'" and len: "length res' = length res"
      and out: "\<forall>j < length res. j \<notin> set is \<longrightarrow> res' ! j = res ! j"
      and inn: "\<forall>j \<in> set is. if res ! j = CHR ''C'' then res' ! j = CHR ''C'' else res' ! j = CHR ''P'' \<or> res' ! j = CHR ''N''"
      and cnt: "\<forall>c. int (length (filter (\<lambda>j. res ! j \<noteq> CHR ''C'' \<and> g ! j = c \<and> res' ! j = CHR ''P'') is)) \<le> max 0 (counter_get rem (Some c))"
      by auto
    have "pattern_pass2 (i # is) g res rem = Inr res'" using c eq by simp
    moreover have "res' ! i = CHR ''C''" using out ir ni c by simp
    ultimately show ?thesis using len out inn cnt c by auto
  next
    case p
    let ?res = "res[i := CHR ''P'']" and ?rem = "counter_add rem (Some (g ! i)) (- 1)"
    have r': "\<forall>j\<in>set is. j < length g \<and> j < length ?res" using r by simp
    from Cons.IH[OF d r', of ?rem] obtain res' where
      eq: "pattern_pass2 is g ?res ?rem = Inr res'" and len: "length res' = length res"
      and out: "\<forall>j < length res. j \<notin> set is \<longrightarrow> res' ! j = ?res ! j"
      and inn: "\<forall>j \<in> set is. if ?res ! j = CHR ''C'' then res' ! j = CHR ''C'' else res' ! j = CHR ''P'' \<or> res' ! j = CHR ''N''"
      and cnt: "\<forall>c. int (length (filter (\<lambda>j. ?res ! j \<noteq> CHR ''C'' \<and> g ! j = c \<and> res' ! j = CHR ''P'') is)) \<le> max 0 (counter_get ?rem (Some c))"
      by auto
    have same: "\<And>j. j \<in> set is \<Longrightarrow> ?res ! j = res ! j" using ni by (metis nth_list_update_neq)
    have f: "\<And>c. filter (\<lambda>j. ?res ! j \<noteq> CHR ''C'' \<and> g ! j = c \<and> res' ! j = CHR ''P'') is
                 = filter (\<lambda>j. res ! j \<noteq> CHR ''C'' \<and> g ! j = c \<and> res' ! j = CHR ''P'') is"
      by (rule filter_cong) (auto simp: same)
    have ri: "res' ! i = CHR ''P''" using out ir ni by simp
    have "pattern_pass2 (i # is) g res rem = Inr res'" using p ir eq by (simp add: Let_def)
    moreover have "\<forall>j < length res. j \<notin> set (i # is) \<longrightarrow> res' ! j = res ! j" using out by auto
    moreover have "\<forall>j \<in> set (i # is). if res ! j = CHR ''C'' then res' ! j = CHR ''C'' else res' ! j = CHR ''P'' \<or> res' ! j = CHR ''N''"
      using inn same ri p by auto
    moreover have "\<forall>c. int (length (filter (\<lambda>j. res ! j \<noteq> CHR ''C'' \<and> g ! j = c \<and> res' ! j = CHR ''P'') (i # is))) \<le> max 0 (counter_get rem (Some c))"
    proof
      fix c
      have "int (length (filter (\<lambda>j. res ! j \<noteq> CHR ''C'' \<and> g ! j = c \<and> res' ! j = CHR ''P'') is)) \<le> max 0 (counter_get ?rem (Some c))"
        using cnt f by simp
      then show "int (length (filter (\<lambda>j. res ! j \<noteq> CHR ''C'' \<and> g ! j = c \<and> res' ! j = CHR ''P'') (i # is))) \<le> max 0 (counter_get rem (Some c))"
        using p ri by (auto simp: counter_get_add split: if_splits)
    qed
    ultimately show ?thesis using len by blast
  next
    case n
    let ?res = "res[i := CHR ''N'']"
    have r': "\<forall>j\<in>set is. j < length g \<and> j < length ?res" using r by simp
    from Cons.IH[OF d r', of rem] obtain res' where
      eq: "pattern_pass2 is g ?res rem = Inr res'" and len: "length res' = length res"
      and out: "\<forall>j < length res. j \<notin> set is \<longrightarrow> res' ! j = ?res ! j"
      and inn: "\<forall>j \<in> set is. if ?res ! j = CHR ''C'' then res' ! j = CHR ''C'' else res' ! j = CHR ''P'' \<or> res' ! j = CHR ''N''"
      and cnt: "\<forall>c. int (length (filter (\<lambda>j. ?res ! j \<noteq> CHR ''C'' \<and> g ! j = c \<and> res' ! j = CHR ''P'') is)) \<le> max 0 (counter_get rem (Some c))"
      by auto
    have same: "\<And>j. j \<in> set is \<Longrightarrow> ?res ! j = res ! j" using ni by (metis nth_list_update_neq)
    have f: "\<And>c. filter (\<lambda>j. ?res ! j \<noteq> CHR ''C'' \<and> g ! j = c \<and> res' ! j = CHR ''P'') is
                 = filter (\<lambda>j. res ! j \<noteq> CHR ''C'' \<and> g ! j = c \<and> res' ! j = CHR ''P'') is"
      by (rule filter_cong) (auto simp: same)
    have ri: "res' ! i = CHR ''N''" using out ir ni by simp
    have "pattern_pass2 (i # is) g res rem = Inr res'" using n ir eq by (simp add: Let_def)
    moreover have "\<forall>j < length res. j \<notin> set (i # is) \<longrightarrow> res' ! j = res ! j" using out by auto
    moreover have "\<forall>j \<in> set (i # is). if res ! j = CHR ''C'' then res' ! j = CHR ''C'' else res' ! j = CHR ''P'' \<or> res' ! j = CHR ''N''"
      using inn same ri n by auto
    moreover have "\<forall>c. int (length (filter (\<lambda>j. res ! j \<noteq> CHR ''C'' \<and> g ! j = c \<and> res' ! j = CHR ''P'') (i # is))) \<le> max 0 (counter_get rem (Some c))"
      using cnt f ri by simp
    ultimately show ?thesis using len by blast
  qed
qed

lemma pattern_for_char:
  assumes g: "5 \<le> length g" and s: "5 \<le> length s"
  shows "\<exists>p. pattern_for g s = Inr p \<and> length p = 5
     \<and> (\<forall>j<5. (p ! j = CHR ''C'' \<longleftrightarrow> g ! j = s ! j)
              \<and> (p ! j = CHR ''C'' \<or> p ! j = CHR ''P'' \<or> p ! j = CHR ''N''))
     \<and> (\<forall>c. length (filter (\<lambda>j. g ! j = c \<and> p ! j = CHR ''P'') [0..<5])
            \<le> length (filter (\<lambda>j. s ! j = c \<and> g ! j \<noteq> s ! j) [0..<5]))"
proof -
  let ?s = "map Some s" and ?res = "replicate 5 (CHR ''N'')"
  have r1: "\<forall>i\<in>set [0..<5]. i < length g \<and> i < length ?s" using g s by simp
  from pattern_pass1_char[OF distinct_upt r1, of ?res Map.empty]
  obtain s' res1 rem1 where
    eq1: "pattern_pass1 [0..<5] g ?s ?res Map.empty = Inr (s', res1, rem1)"
    and len1: "length res1 = 5"
    and el1: "\<forall>j<5. res1 ! j = (if Some (g ! j) = ?s ! j then CHR ''C'' else CHR ''N'')"
    and cnt1: "\<forall>k. counter_get rem1 k = int (length (filter (\<lambda>j. ?s ! j = k \<and> Some (g ! j) \<noteq> ?s ! j) [0..<5]))"
    by (auto simp: counter_get_empty)
  have el1': "\<And>j. j < 5 \<Longrightarrow> res1 ! j = (if g ! j = s ! j then CHR ''C'' else CHR ''N'')"
    using el1 s by simp
  have cnt1': "\<And>c. counter_get rem1 (Some c) = int (length (filter (\<lambda>j. s ! j = c \<and> g ! j \<noteq> s ! j) [0..<5]))"
  proof -
    fix c
    have "filter (\<lambda>j. ?s ! j = Some c \<and> Some (g ! j) \<noteq> ?s ! j) [0..<5]
        = filter (\<lambda>j. s ! j = c \<and> g ! j \<noteq> s ! j) [0..<5]"
      by (rule filter_cong) (use s in auto)
    then show "counter_get rem1 (Some c) = int (length (filter (\<lambda>j. s ! j = c \<and> g ! j \<noteq> s ! j) [0..<5]))"
      using cnt1 by simp
  qed
  have r2: "\<forall>i\<in>set [0..<5]. i < length g \<and> i < length res1" using g len1 by simp
  from pattern_pass2_char[OF distinct_upt r2, of rem1]
  obtain p where
    eq2: "pattern_pass2 [0..<5] g res1 rem1 = Inr p"
    and len2: "length p = 5"
    and inn: "\<forall>j\<in>set [0..<5]. if res1 ! j = CHR ''C'' then p ! j = CHR ''C'' else p ! j = CHR ''P'' \<or> p ! j = CHR ''N''"
    and cnt2: "\<forall>c. int (length (filter (\<lambda>j. res1 ! j \<noteq> CHR ''C'' \<and> g ! j = c \<and> p ! j = CHR ''P'') [0..<5])) \<le> max 0 (counter_get rem1 (Some c))"
    using len1 by auto
  have pf: "pattern_for g s = Inr p" using eq1 eq2 by (simp add: pattern_for_def)
  have sym: "\<forall>j<5. (p ! j = CHR ''C'' \<longleftrightarrow> g ! j = s ! j)
              \<and> (p ! j = CHR ''C'' \<or> p ! j = CHR ''P'' \<or> p ! j = CHR ''N'')"
  proof (intro allI impI)
    fix j :: nat assume j: "j < 5"
    then have "if res1 ! j = CHR ''C'' then p ! j = CHR ''C'' else p ! j = CHR ''P'' \<or> p ! j = CHR ''N''"
      using inn by simp
    then show "(p ! j = CHR ''C'' \<longleftrightarrow> g ! j = s ! j)
              \<and> (p ! j = CHR ''C'' \<or> p ! j = CHR ''P'' \<or> p ! j = CHR ''N'')"
      using el1'[OF j] by (auto split: if_splits)
  qed
  have cap: "\<forall>c. length (filter (\<lambda>j. g ! j = c \<and> p ! j = CHR ''P'') [0..<5])
            \<le> length (filter (\<lambda>j. s ! j = c \<and> g ! j \<noteq> s ! j) [0..<5])"
  proof
    fix c
    have "filter (\<lambda>j. res1 ! j \<noteq> CHR ''C'' \<and> g ! j = c \<and> p ! j = CHR ''P'') [0..<5]
        = filter (\<lambda>j. g ! j = c \<and> p ! j = CHR ''P'') [0..<5]"
    proof (rule filter_cong[OF refl])
      fix j assume "j \<in> set [0..<5]"
      then have j: "j < 5" by simp
      have "if res1 ! j = CHR ''C'' then p ! j = CHR ''C'' else p ! j = CHR ''P'' \<or> p ! j = CHR ''N''"
        using inn j by simp
      then show "(res1 ! j \<noteq> CHR ''C'' \<and> g ! j = c \<and> p ! j = CHR ''P'') = (g ! j = c \<and> p ! j = CHR ''P'')"
        by (auto split: if_splits)
    qed
    then show "length (filter (\<lambda>j. g ! j = c \<and> p ! j = CHR ''P'') [0..<5])
            \<le> length (filter (\<lambda>j. s ! j = c \<and> g ! j \<noteq> s ! j) [0..<5])"
      using cnt2[rule_format, of c] cnt1'[of c] by simp
  qed
  show ?thesis using pf len2 sym cap by blast
qed

lemma pattern_for_short:
  assumes "length g < 5 \<or> length s < 5"
  shows "pattern_for g s = Inl IndexError"
proof -
  have "\<exists>i\<in>set [0..<5]. \<not> (i < length g \<and> i < length (map Some s))"
  proof (cases "length g < 5")
    case True
    then show ?thesis by (intro bexI[of _ "length g"]) auto
  next
    case False
    then have "length s < 5" using assms by simp
    then show ?thesis by (intro bexI[of _ "length s"]) auto
  qed
  then show ?thesis by (simp add: pattern_for_def pattern_pass1_short)
qed

lemma pattern_pass1_take:
  assumes "\<forall>i\<in>set is. i < n" "n \<le> length g" "n \<le> length s"
  shows "map_sum id (\<lambda>(s', res', rem'). (res', rem')) (pattern_pass1 is (take n g) (take n s) res rem)
       = map_sum id (\<lambda>(s', res', rem'). (res', rem')) (pattern_pass1 is g s res rem)"
  using assms
proof (induction "is" arbitrary: s res rem)
  case Nil
  then show ?case by simp
next
  case (Cons i "is")
  have i: "i < n" and r: "\<forall>i\<in>set is. i < n" using Cons.prems by auto
  have upd: "take n (s[i := None]) = (take n s)[i := None]" by (simp add: take_update_swap)
  show ?case
    using i Cons.prems(2,3) Cons.IH[OF r Cons.prems(2), of "s[i := None]"] Cons.IH[OF r Cons.prems(2) Cons.prems(3)]
    by (simp add: upd)
qed

lemma pattern_pass2_take:
  assumes "\<forall>i\<in>set is. i < n" "n \<le> length g"
  shows "pattern_pass2 is (take n g) res rem = pattern_pass2 is g res rem"
  using assms
  by (induction "is" arbitrary: res rem) (auto simp: Let_def)

lemma pattern_for_take:
  assumes "5 \<le> length g" "5 \<le> length s"
  shows "pattern_for (take 5 g) (take 5 s) = pattern_for g s"
proof -
  have b: "\<forall>i\<in>set [0..<5]. i < (5::nat)" by simp
  have s5: "5 \<le> length (map Some s)" using assms by simp
  have t: "map Some (take 5 s) = take 5 (map Some s)" by (simp add: take_map)
  have "map_sum id (\<lambda>(s', res', rem'). (res', rem')) (pattern_pass1 [0..<5] (take 5 g) (take 5 (map Some s)) (replicate 5 (CHR ''N'')) Map.empty)
       = map_sum id (\<lambda>(s', res', rem'). (res', rem')) (pattern_pass1 [0..<5] g (map Some s) (replicate 5 (CHR ''N'')) Map.empty)"
    by (rule pattern_pass1_take[OF b assms(1) s5])
  then show ?thesis
    unfolding pattern_for_def t
    by (auto split: sum.splits simp: pattern_pass2_take[OF b assms(1)])
qed

lemma count_positions: "length (filter (\<lambda>j. xs ! j = c) [0..<length xs]) = count_list xs c"
proof -
  have "filter ((=) c) (map ((!) xs) [0..<length xs]) = filter ((=) c) xs" by (simp add: map_nth)
  then have "length (filter ((=) c \<circ> (!) xs) [0..<length xs]) = length (filter ((=) c) xs)"
    by (metis filter_map length_map)
  moreover have "filter ((=) c \<circ> (!) xs) [0..<length xs] = filter (\<lambda>j. xs ! j = c) [0..<length xs]"
    by (rule filter_cong) auto
  ultimately show ?thesis by (simp add: count_list_eq_length_filter)
qed

lemma length_filter_split:
  "length (filter (\<lambda>j. P j \<and> (Q j \<or> R j)) xs) \<le> length (filter (\<lambda>j. P j \<and> Q j) xs) + length (filter (\<lambda>j. P j \<and> R j) xs)"
  by (induction xs) auto

lemma length_filter_partition:
  "length (filter (\<lambda>j. P j \<and> Q j) xs) + length (filter (\<lambda>j. P j \<and> \<not> Q j) xs) = length (filter P xs)"
  by (induction xs) auto

text \<open>
  Claim C1. For a guess and a solution of length 5, \<^verbatim>\<open>pattern_for\<close> returns a
  pattern that marks position \<open>i\<close> with \<^verbatim>\<open>C\<close> exactly when
  \<open>guess[i] = solution[i]\<close>; for every letter, the positions of the guess that hold
  the letter and are marked \<^verbatim>\<open>C\<close> or \<^verbatim>\<open>P\<close> are at most as many as the
  occurrences of the letter in the solution; and the \<^verbatim>\<open>P\<close> marks of a letter are at
  most as many as the occurrences of the letter in the solution that are left once the
  exact matches are taken away (the exact matches are served first).
\<close>

theorem pattern_for_duplicate_rule:
  assumes "length guess = 5" and "length solution = 5"
  shows "\<exists>p. pattern_for guess solution = Inr p
     \<and> (\<forall>i<5. p ! i = CHR ''C'' \<longleftrightarrow> guess ! i = solution ! i)
     \<and> (\<forall>c. length (filter (\<lambda>i. guess ! i = c \<and> (p ! i = CHR ''C'' \<or> p ! i = CHR ''P'')) [0..<5])
            \<le> count_list solution c)
     \<and> (\<forall>c. length (filter (\<lambda>i. guess ! i = c \<and> p ! i = CHR ''P'') [0..<5])
            \<le> length (filter (\<lambda>i. solution ! i = c \<and> guess ! i \<noteq> solution ! i) [0..<5]))"
proof -
  from pattern_for_char[of guess solution] assms obtain p where
    pf: "pattern_for guess solution = Inr p"
    and sym: "\<forall>j<5. (p ! j = CHR ''C'' \<longleftrightarrow> guess ! j = solution ! j)"
    and cap: "\<forall>c. length (filter (\<lambda>j. guess ! j = c \<and> p ! j = CHR ''P'') [0..<5])
            \<le> length (filter (\<lambda>j. solution ! j = c \<and> guess ! j \<noteq> solution ! j) [0..<5])"
    by auto
  have tot: "\<forall>c. length (filter (\<lambda>i. guess ! i = c \<and> (p ! i = CHR ''C'' \<or> p ! i = CHR ''P'')) [0..<5])
            \<le> count_list solution c"
  proof
    fix c
    have a: "filter (\<lambda>i. guess ! i = c \<and> p ! i = CHR ''C'') [0..<5]
           = filter (\<lambda>i. solution ! i = c \<and> guess ! i = solution ! i) [0..<5]"
      by (rule filter_cong) (use sym in auto)
    have "length (filter (\<lambda>i. solution ! i = c \<and> guess ! i = solution ! i) [0..<5])
        + length (filter (\<lambda>i. solution ! i = c \<and> guess ! i \<noteq> solution ! i) [0..<5])
        = length (filter (\<lambda>i. solution ! i = c) [0..<5])"
      by (rule length_filter_partition)
    also have "\<dots> = count_list solution c"
      using count_positions[of solution c] assms(2) by simp
    finally have b: "length (filter (\<lambda>i. solution ! i = c \<and> guess ! i = solution ! i) [0..<5])
        + length (filter (\<lambda>i. solution ! i = c \<and> guess ! i \<noteq> solution ! i) [0..<5])
        = count_list solution c" .
    have "length (filter (\<lambda>i. guess ! i = c \<and> (p ! i = CHR ''C'' \<or> p ! i = CHR ''P'')) [0..<5])
        \<le> length (filter (\<lambda>i. guess ! i = c \<and> p ! i = CHR ''C'') [0..<5])
          + length (filter (\<lambda>i. guess ! i = c \<and> p ! i = CHR ''P'') [0..<5])"
      by (rule length_filter_split)
    then show "length (filter (\<lambda>i. guess ! i = c \<and> (p ! i = CHR ''C'' \<or> p ! i = CHR ''P'')) [0..<5])
            \<le> count_list solution c"
      using a b cap[rule_format, of c] by simp
  qed
  show ?thesis using pf sym tot cap by blast
qed

theorem pattern_for_duplicate_rule_witness:
  "length ''sassy'' = 5 \<and> length ''class'' = 5 \<and> pattern_for ''sassy'' ''class'' = Inr ''PPNCN''
   \<and> (\<exists>p. pattern_for ''sassy'' ''class'' = Inr p
     \<and> (\<forall>i<5. p ! i = CHR ''C'' \<longleftrightarrow> ''sassy'' ! i = ''class'' ! i)
     \<and> (\<forall>c. length (filter (\<lambda>i. ''sassy'' ! i = c \<and> (p ! i = CHR ''C'' \<or> p ! i = CHR ''P'')) [0..<5])
            \<le> count_list ''class'' c)
     \<and> (\<forall>c. length (filter (\<lambda>i. ''sassy'' ! i = c \<and> p ! i = CHR ''P'') [0..<5])
            \<le> length (filter (\<lambda>i. ''class'' ! i = c \<and> ''sassy'' ! i \<noteq> ''class'' ! i) [0..<5])))"
proof -
  have l: "length ''sassy'' = 5" "length ''class'' = 5" by simp_all
  have v: "pattern_for ''sassy'' ''class'' = Inr ''PPNCN''" by code_simp
  show ?thesis using l v pattern_for_duplicate_rule[OF l] by blast
qed

text \<open>
  Claim C8. For every word \<open>w\<close> of length 5, \<^verbatim>\<open>pattern_for(w, w)\<close> is
  \<^verbatim>\<open>CCCCC\<close>.
\<close>

theorem pattern_for_self_all_correct:
  assumes "length w = 5"
  shows "pattern_for w w = Inr ''CCCCC''"
proof -
  from pattern_for_char[of w w] assms obtain p where
    pf: "pattern_for w w = Inr p" and len: "length p = 5"
    and sym: "\<forall>j<5. p ! j = CHR ''C''"
    by auto
  have "p = replicate 5 (CHR ''C'')"
  proof (rule replicate_eqI[OF len])
    fix y assume "y \<in> set p"
    then obtain j where "j < length p" "p ! j = y" by (auto simp: in_set_conv_nth)
    then show "y = CHR ''C''" using sym len by auto
  qed
  then have "p = ''CCCCC''" by (simp add: eval_nat_numeral)
  then show ?thesis using pf by simp
qed

theorem pattern_for_self_all_correct_witness:
  "length ''crane'' = 5 \<and> pattern_for ''crane'' ''crane'' = Inr ''CCCCC''"
  using pattern_for_self_all_correct[of "''crane''"] by simp

text \<open>
  Claim C9. For a guess and a solution of length 5, the pattern returned by
  \<^verbatim>\<open>pattern_for\<close> has length 5 and each of its symbols is \<^verbatim>\<open>C\<close>,
  \<^verbatim>\<open>P\<close> or \<^verbatim>\<open>N\<close>.
\<close>

theorem pattern_for_length_and_symbols:
  assumes "length guess = 5" and "length solution = 5"
  shows "\<exists>p. pattern_for guess solution = Inr p \<and> length p = 5
           \<and> set p \<subseteq> {CHR ''C'', CHR ''P'', CHR ''N''}"
proof -
  from pattern_for_char[of guess solution] assms obtain p where
    pf: "pattern_for guess solution = Inr p" and len: "length p = 5"
    and sym: "\<forall>j<5. p ! j = CHR ''C'' \<or> p ! j = CHR ''P'' \<or> p ! j = CHR ''N''"
    by auto
  have "set p \<subseteq> {CHR ''C'', CHR ''P'', CHR ''N''}"
  proof
    fix y assume "y \<in> set p"
    then obtain j where "j < length p" "p ! j = y" by (auto simp: in_set_conv_nth)
    then show "y \<in> {CHR ''C'', CHR ''P'', CHR ''N''}" using sym len by auto
  qed
  then show ?thesis using pf len by blast
qed

theorem pattern_for_length_and_symbols_witness:
  "length ''crane'' = 5 \<and> length ''grape'' = 5 \<and> pattern_for ''crane'' ''grape'' = Inr ''NCCNC''
   \<and> (\<exists>p. pattern_for ''crane'' ''grape'' = Inr p \<and> length p = 5
           \<and> set p \<subseteq> {CHR ''C'', CHR ''P'', CHR ''N''})"
proof -
  have l: "length ''crane'' = 5" "length ''grape'' = 5" by simp_all
  have v: "pattern_for ''crane'' ''grape'' = Inr ''NCCNC''" by code_simp
  show ?thesis using l v pattern_for_length_and_symbols[OF l] by blast
qed

text \<open>
  Claim C7 says that \<^verbatim>\<open>pattern_for\<close> fails on a guess or solution whose length is
  not 5 or that holds a character outside the lowercase alphabet. It does not: two
  six-letter words give the pattern of their first five letters, and an upper-case guess
  gives a pattern as well.
\<close>

theorem pattern_for_no_validation_counterexample:
  "pattern_for ''cranes'' ''slates'' = Inr ''NNCNC'' \<and> pattern_for ''CRANE'' ''crane'' = Inr ''NNNNN''"
  by code_simp

text \<open>
  Claim C7, amended. \<^verbatim>\<open>pattern_for\<close> validates nothing. It raises (IndexError) when
  the guess or the solution has fewer than 5 characters; when both have at least 5 it
  returns a pattern, the one of their first five characters, whatever the characters are.
\<close>

theorem pattern_for_index_error_only_when_short:
  "(length guess < 5 \<or> length solution < 5 \<longrightarrow> pattern_for guess solution = Inl IndexError)
   \<and> (5 \<le> length guess \<and> 5 \<le> length solution \<longrightarrow>
        (\<exists>p. pattern_for guess solution = Inr p \<and> pattern_for (take 5 guess) (take 5 solution) = Inr p))"
proof (intro conjI impI)
  assume "length guess < 5 \<or> length solution < 5"
  then show "pattern_for guess solution = Inl IndexError" by (rule pattern_for_short)
next
  assume a: "5 \<le> length guess \<and> 5 \<le> length solution"
  then obtain p where "pattern_for guess solution = Inr p"
    using pattern_for_char[of guess solution] by auto
  then show "\<exists>p. pattern_for guess solution = Inr p \<and> pattern_for (take 5 guess) (take 5 solution) = Inr p"
    using pattern_for_take[of guess solution] a by simp
qed

theorem pattern_for_index_error_only_when_short_witness:
  "(length ''cran'' < 5 \<or> length ''crane'' < 5) \<and> pattern_for ''cran'' ''crane'' = Inl IndexError
   \<and> (5 \<le> length ''cranes'' \<and> 5 \<le> length ''slates'')
   \<and> (\<exists>p. pattern_for ''cranes'' ''slates'' = Inr p \<and> pattern_for (take 5 ''cranes'') (take 5 ''slates'') = Inr p)"
proof -
  have a: "length ''cran'' < 5 \<or> length ''crane'' < 5" by simp
  have b: "5 \<le> length ''cranes'' \<and> 5 \<le> length ''slates''" by simp
  show ?thesis
    using a b pattern_for_index_error_only_when_short[of "''cran''" "''crane''"]
      pattern_for_index_error_only_when_short[of "''cranes''" "''slates''"]
    by blast
qed

section \<open>Properties of the candidate filter and of the empty inputs\<close>

lemma filter_candidates_char:
  assumes "5 \<le> length guess" and "\<forall>w\<in>set cands. 5 \<le> length w"
  shows "filter_candidates cands guess pat = Inr (filter (\<lambda>w. pattern_for guess w = Inr pat) cands)"
  using assms(2)
proof (induction cands)
  case Nil
  then show ?case by simp
next
  case (Cons w cands)
  then have w: "5 \<le> length w" by simp
  from pattern_for_char[OF assms(1) w] obtain p where p: "pattern_for guess w = Inr p" by blast
  show ?case using Cons p by (simp add: consistent_with_def)
qed

text \<open>
  Claim C2. For a guess of length 5, candidates of length 5 and any pattern,
  \<^verbatim>\<open>filter_candidates\<close> returns exactly the candidates \<open>w\<close> with
  \<^verbatim>\<open>pattern_for(guess, w) == pat\<close>, in the order of the input: every word of the
  result has that pattern, every candidate left out does not, and the result is a
  subsequence of the input. The input list is read only: the function builds a new list.
\<close>

theorem filter_candidates_exact:
  assumes "length guess = 5" and "\<forall>w\<in>set cands. length w = 5"
  shows "\<exists>result. filter_candidates cands guess pat = Inr result
     \<and> result = filter (\<lambda>w. pattern_for guess w = Inr pat) cands
     \<and> subseq result cands
     \<and> (\<forall>w\<in>set result. pattern_for guess w = Inr pat)
     \<and> (\<forall>w\<in>set cands. w \<notin> set result \<longrightarrow> pattern_for guess w \<noteq> Inr pat)"
proof -
  let ?r = "filter (\<lambda>w. pattern_for guess w = Inr pat) cands"
  have "filter_candidates cands guess pat = Inr ?r"
    using filter_candidates_char[of guess cands pat] assms by simp
  moreover have "subseq ?r cands" by (rule subseq_filter_left)
  moreover have "\<forall>w\<in>set ?r. pattern_for guess w = Inr pat" by simp
  moreover have "\<forall>w\<in>set cands. w \<notin> set ?r \<longrightarrow> pattern_for guess w \<noteq> Inr pat" by simp
  ultimately show ?thesis by blast
qed

theorem filter_candidates_exact_witness:
  "length ''crane'' = 5 \<and> list_all (\<lambda>w. length w = 5) [''crane'', ''slate'', ''grape'']
   \<and> filter_candidates [''crane'', ''slate'', ''grape''] ''crane'' ''NCCNC'' = Inr [''grape'']
   \<and> (\<exists>result. filter_candidates [''crane'', ''slate'', ''grape''] ''crane'' ''NCCNC'' = Inr result
     \<and> result = filter (\<lambda>w. pattern_for ''crane'' w = Inr ''NCCNC'') [''crane'', ''slate'', ''grape'']
     \<and> subseq result [''crane'', ''slate'', ''grape'']
     \<and> (\<forall>w\<in>set result. pattern_for ''crane'' w = Inr ''NCCNC'')
     \<and> (\<forall>w\<in>set [''crane'', ''slate'', ''grape'']. w \<notin> set result \<longrightarrow> pattern_for ''crane'' w \<noteq> Inr ''NCCNC''))"
proof -
  have l: "length ''crane'' = 5" "\<forall>w\<in>set [''crane'', ''slate'', ''grape'']. length w = 5" by simp_all
  have l': "list_all (\<lambda>w. length w = 5) [''crane'', ''slate'', ''grape'']" by simp
  have v: "filter_candidates [''crane'', ''slate'', ''grape''] ''crane'' ''NCCNC'' = Inr [''grape'']"
    by code_simp
  show ?thesis
    using l(1) l' v filter_candidates_exact[OF l, of "''NCCNC''"] by blast
qed

text \<open>
  Claim C10. On an empty candidate list \<^verbatim>\<open>entropy_of_guess\<close> returns 0 and raises
  nothing: there is no bucket, so \<^verbatim>\<open>k / n\<close> with \<^verbatim>\<open>n = 0\<close> is never computed.
\<close>

theorem entropy_of_guess_empty: "entropy_of_guess ops guess [] = Inr 0"
  by (simp add: entropy_of_guess_def)

text \<open>
  Claim C6 says that \<^verbatim>\<open>best_likelihood_guess\<close> and \<^verbatim>\<open>best_entropy_guess\<close> fail
  on an empty candidate set. Neither raises (the arithmetic plays no part: no float operation
  is reached).
\<close>

theorem empty_input_returns_sentinel_counterexample:
  "\<not> isl (best_likelihood_guess exact_ops []) \<and> \<not> isl (best_entropy_guess exact_ops [] [])"
  by (simp add: best_likelihood_guess_def position_frequencies_def best_entropy_guess_def)

text \<open>
  Claim C6, amended. On an empty candidate list \<^verbatim>\<open>best_likelihood_guess\<close> returns the
  initial pair \<^verbatim>\<open>(None, -1.0)\<close>, and so does \<^verbatim>\<open>best_entropy_guess\<close>, whatever
  the allowed list is.
\<close>

theorem empty_input_returns_sentinel:
  "best_likelihood_guess ops [] = Inr (None, - 1) \<and> best_entropy_guess ops [] allowed = Inr (None, - 1)"
  by (simp add: best_likelihood_guess_def position_frequencies_def best_entropy_guess_def)

lemma pattern_slate_crane: "pattern_for ''slate'' ''crane'' = Inr ''NNCNC''"
  by code_simp

lemma pattern_crane_crane: "pattern_for ''crane'' ''crane'' = Inr ''CCCCC''"
  by code_simp


section \<open>Properties of the entropy\<close>

lemma entropy_buckets_fold:
  assumes "\<forall>w\<in>set cs. pattern_for g w = Inr (f w)"
  shows "entropy_buckets g cs b = Inr (fold (\<lambda>p d. bucket_incr d p) (map f cs) b)"
  using assms by (induction cs arbitrary: b) auto

lemma bucket_incr_distinct:
  "distinct (map fst d) \<Longrightarrow> distinct (map fst (bucket_incr d k))"
  by (simp add: bucket_incr_def distinct_update)

lemma bucket_incr_keys: "fst ` set (bucket_incr d k) = insert k (fst ` set d)"
  by (simp add: bucket_incr_def dom_update)

lemma bucket_incr_get:
  "defaultdict_get (bucket_incr d k) k' = (if k' = k then defaultdict_get d k + 1 else defaultdict_get d k')"
  by (simp add: bucket_incr_def defaultdict_get_def update_conv')

lemma fold_bucket_distinct:
  "distinct (map fst d) \<Longrightarrow> distinct (map fst (fold (\<lambda>p d. bucket_incr d p) ps d))"
  by (induction ps arbitrary: d) (auto simp: bucket_incr_distinct)

lemma fold_bucket_keys:
  "fst ` set (fold (\<lambda>p d. bucket_incr d p) ps d) = set ps \<union> fst ` set d"
  by (induction ps arbitrary: d) (auto simp: bucket_incr_keys)

lemma fold_bucket_get:
  "defaultdict_get (fold (\<lambda>p d. bucket_incr d p) ps d) k = defaultdict_get d k + int (count_list ps k)"
  by (induction ps arbitrary: d) (auto simp: bucket_incr_get)

lemma defaultdict_get_Nil: "defaultdict_get [] k = 0"
  by (simp add: defaultdict_get_def)

lemma sum_list_alist_values:
  assumes "distinct (map fst al)"
  shows "sum_list (map (\<lambda>kv. h (snd kv)) al) = (\<Sum>k\<in>fst ` set al. h (defaultdict_get al k))"
  using assms
proof (induction al)
  case Nil
  then show ?case by simp
next
  case (Cons kv al)
  obtain k v where kv: "kv = (k, v)" by (cases kv)
  have nk: "k \<notin> fst ` set al" and d: "distinct (map fst al)" using Cons.prems kv by auto
  have "(\<Sum>k'\<in>fst ` set al. h (defaultdict_get (kv # al) k')) = (\<Sum>k'\<in>fst ` set al. h (defaultdict_get al k'))"
    by (rule sum.cong) (use nk kv in \<open>auto simp: defaultdict_get_def\<close>)
  then show ?case using Cons.IH[OF d] nk kv by (simp add: defaultdict_get_def)
qed


lemma fold_bucket_values:
  assumes "v \<in> set (map snd (fold (\<lambda>p d. bucket_incr d p) ps []))"
  shows "0 < v \<and> v \<le> int (length ps)"
proof -
  let ?b = "fold (\<lambda>p d. bucket_incr d p) ps []"
  have d: "distinct (map fst ?b)" by (rule fold_bucket_distinct) simp
  have keys: "fst ` set ?b = set ps" by (simp add: fold_bucket_keys)
  have get: "\<And>k. defaultdict_get ?b k = int (count_list ps k)"
    by (simp add: fold_bucket_get defaultdict_get_Nil)
  from assms obtain k where kv: "(k, v) \<in> set ?b" by auto
  then have "map_of ?b k = Some v" using d by simp
  then have v: "v = int (count_list ps k)" using get[of k] by (simp add: defaultdict_get_def)
  have "k \<in> set ps" using kv keys by (metis fst_conv imageI)
  then have "count_list ps k \<noteq> 0" by (simp only: count_list_0_iff not_not)
  moreover have "count_list ps k \<le> length ps" by (rule count_le_length)
  ultimately show ?thesis using v by simp
qed

lemma entropy_sum_sane:
  assumes "float_ops_sane ops n" and "\<forall>k\<in>set ks. 0 < k \<and> k \<le> n" and "0 \<le> ent"
  shows "\<exists>e. entropy_sum ops ks n ent = Inr e \<and> 0 \<le> e"
  using assms(2,3)
proof (induction ks arbitrary: ent)
  case Nil
  then show ?case by simp
next
  case (Cons k ks)
  have k: "0 < k \<and> k \<le> n" and r: "\<forall>k\<in>set ks. 0 < k \<and> k \<le> n" using Cons.prems(1) by simp_all
  define p where "p = fl_truediv ops k n"
  have p: "0 < p \<and> p \<le> 1" using assms(1) k unfolding float_ops_sane_def p_def by blast
  then have "fl_log2 ops p \<le> 0" using assms(1) unfolding float_ops_sane_def by blast
  moreover have "- p \<le> 0" using p by simp
  ultimately have "0 \<le> fl_mul ops (- p) (fl_log2 ops p)"
    using assms(1) unfolding float_ops_sane_def by blast
  then have e: "0 \<le> fl_add ops ent (fl_mul ops (- p) (fl_log2 ops p))"
    using assms(1) Cons.prems(2) unfolding float_ops_sane_def by blast
  have n: "n \<noteq> 0" using k by auto
  have "entropy_sum ops (k # ks) n ent
      = entropy_sum ops ks n (fl_add ops ent (fl_mul ops (- p) (fl_log2 ops p)))"
    using n p by (simp add: Let_def p_def[symmetric] not_le[symmetric] del: not_le)
  then show ?case using Cons.IH[OF r e] by simp
qed

lemma pattern_for_total:
  assumes "5 \<le> length g" and "5 \<le> length w"
  shows "pattern_for g w = Inr (projr (pattern_for g w))"
  using pattern_for_char[OF assms] by auto

lemma entropy_of_guess_total:
  assumes "float_ops_sane ops (int (length cs))"
    and "5 \<le> length g" and "\<forall>w\<in>set cs. 5 \<le> length w"
  shows "\<exists>e. entropy_of_guess ops g cs = Inr e \<and> 0 \<le> e"
proof -
  define f where "f = (\<lambda>w. projr (pattern_for g w))"
  have tot: "\<forall>w\<in>set cs. pattern_for g w = Inr (f w)"
    unfolding f_def using assms(2,3) pattern_for_total by blast
  let ?b = "fold (\<lambda>p d. bucket_incr d p) (map f cs) []"
  have b: "entropy_buckets g cs [] = Inr ?b" by (rule entropy_buckets_fold[OF tot])
  have v: "\<forall>k\<in>set (map snd ?b). 0 < k \<and> k \<le> int (length cs)"
    using fold_bucket_values[of _ "map f cs"] by simp
  from entropy_sum_sane[OF assms(1) v, of 0]
  show ?thesis using b by (simp add: entropy_of_guess_def)
qed

subsection \<open>The entropy in exact arithmetic\<close>

text \<open>
  Without rounding the value is the entropy of the specification, between 0 and
  \<open>log2 n\<close>. These facts are about \<^const>\<open>exact_ops\<close> only: the sum the program
  computes is rounded at every step, and the upper bound in particular is not a property
  of the rounded sum.
\<close>

lemma exact_ops_sane: "float_ops_sane exact_ops n"
proof -
  have a: "\<And>k. 0 < k \<and> k \<le> n \<Longrightarrow> 0 < real_of_int k / real_of_int n \<and> real_of_int k / real_of_int n \<le> 1"
    by simp
  have b: "\<And>p::real. 0 < p \<and> p \<le> 1 \<Longrightarrow> log 2 p \<le> 0"
    by simp
  have c: "\<And>a b::real. a \<le> 0 \<and> b \<le> 0 \<Longrightarrow> 0 \<le> a * b"
    by (simp add: mult_nonpos_nonpos)
  show ?thesis unfolding float_ops_sane_def exact_ops_def using a b c by simp
qed

lemma entropy_sum_exact:
  assumes "0 < n" and "\<forall>k\<in>set ks. 0 < k"
  shows "entropy_sum exact_ops ks n ent
       = Inr (ent + sum_list (map (\<lambda>k. - (real_of_int k / real_of_int n) * log 2 (real_of_int k / real_of_int n)) ks))"
  using assms(2)
proof (induction ks arbitrary: ent)
  case Nil
  then show ?case by simp
next
  case (Cons k ks)
  have k: "0 < k" using Cons.prems by simp
  have p: "0 < real_of_int k / real_of_int n" using k assms(1) by simp
  show ?case using Cons p assms(1) by (simp add: Let_def exact_ops_def not_le[symmetric] del: not_le)
qed


lemma entropy_of_guess_formula:
  assumes "\<forall>w\<in>set cs. pattern_for g w = Inr (f w)" and "cs \<noteq> []"
  shows "entropy_of_guess exact_ops g cs = Inr (entropy_spec (map f cs))"
proof -
  let ?ps = "map f cs"
  let ?b = "fold (\<lambda>p d. bucket_incr d p) ?ps []"
  let ?n = "int (length cs)"
  let ?t = "\<lambda>k. - (real_of_int k / real_of_int ?n) * log 2 (real_of_int k / real_of_int ?n)"
  have b: "entropy_buckets g cs [] = Inr ?b" by (rule entropy_buckets_fold[OF assms(1)])
  have d: "distinct (map fst ?b)" by (rule fold_bucket_distinct) simp
  have keys: "fst ` set ?b = set ?ps" by (simp add: fold_bucket_keys)
  have get: "\<And>k. defaultdict_get ?b k = int (count_list ?ps k)"
    by (simp add: fold_bucket_get defaultdict_get_Nil)
  have n: "0 < ?n" using assms(2) by simp
  have pos: "\<forall>k\<in>set (map snd ?b). 0 < k"
  proof
    fix v assume "v \<in> set (map snd ?b)"
    then obtain k where kv: "(k, v) \<in> set ?b" by auto
    then have "map_of ?b k = Some v" using d by simp
    then have "v = int (count_list ?ps k)" using get[of k] by (simp add: defaultdict_get_def)
    moreover have "k \<in> set ?ps" using kv keys by (metis fst_conv imageI)
    then have "count_list ?ps k \<noteq> 0" by (simp only: count_list_0_iff not_not)
    ultimately show "0 < v" by simp
  qed
  have "entropy_of_guess exact_ops g cs = Inr (sum_list (map ?t (map snd ?b)))"
    using b entropy_sum_exact[OF n pos, of 0] by (simp add: entropy_of_guess_def)
  also have "sum_list (map ?t (map snd ?b)) = sum_list (map (\<lambda>kv. ?t (snd kv)) ?b)"
    by (simp add: comp_def)
  also have "\<dots> = (\<Sum>k\<in>fst ` set ?b. ?t (defaultdict_get ?b k))"
    by (rule sum_list_alist_values[OF d])
  also have "\<dots> = (\<Sum>k\<in>set ?ps. ?t (int (count_list ?ps k)))"
    using keys get by simp
  also have "\<dots> = entropy_spec ?ps"
    by (simp add: entropy_spec_def sum_negf)
  finally show ?thesis .
qed


lemma count_list_full_iff: "count_list xs x = length xs \<longleftrightarrow> (\<forall>y\<in>set xs. y = x)"
proof (induction xs)
  case Nil
  then show ?case by simp
next
  case (Cons a xs)
  have "count_list xs x \<le> length xs" by (rule count_le_length)
  then show ?case using Cons by auto
qed

lemma entropy_term_bounds:
  assumes "0 < c" and "c \<le> n"
  shows "0 \<le> - (real c / real n) * log 2 (real c / real n)"
    and "- (real c / real n) * log 2 (real c / real n) \<le> (real c / real n) * log 2 (real n)"
    and "- (real c / real n) * log 2 (real c / real n) = 0 \<longleftrightarrow> c = n"
proof -
  have n: "0 < n" using assms by simp
  define p where "p = real c / real n"
  have p0: "0 < p" using assms n by (simp add: p_def)
  have p1: "p \<le> 1" using assms n by (simp add: p_def)
  have "log 2 p \<le> log 2 1" using p0 p1 by (subst log_le_cancel_iff) simp_all
  then have l: "log 2 p \<le> 0" by simp
  have "0 \<le> p * (- log 2 p)" using p0 l by (intro mult_nonneg_nonneg) simp_all
  then show "0 \<le> - (real c / real n) * log 2 (real c / real n)" by (simp add: p_def)
  have "log 2 p = log 2 (real c) - log 2 (real n)"
    unfolding p_def using assms n by (subst log_divide) simp_all
  moreover have "log 2 1 \<le> log 2 (real c)" using assms by (subst log_le_cancel_iff) simp_all
  ultimately have "- log 2 p \<le> log 2 (real n)" by simp
  then have "p * (- log 2 p) \<le> p * log 2 (real n)"
    using p0 by (intro mult_left_mono) simp_all
  then show "- (real c / real n) * log 2 (real c / real n) \<le> (real c / real n) * log 2 (real n)"
    by (simp add: p_def)
  have "- p * log 2 p = 0 \<longleftrightarrow> log 2 p = 0" using p0 by simp
  also have "\<dots> \<longleftrightarrow> p = 1"
  proof
    assume "log 2 p = 0"
    then have "\<not> log 2 p < 0" by simp
    then have "\<not> p < 1" using p0 by (subst (asm) log_less_zero_cancel_iff) simp_all
    then show "p = 1" using p1 by simp
  next
    assume "p = 1"
    then show "log 2 p = 0" by simp
  qed
  also have "\<dots> \<longleftrightarrow> c = n" using n by (auto simp: p_def)
  finally show "- (real c / real n) * log 2 (real c / real n) = 0 \<longleftrightarrow> c = n" by (simp add: p_def)
qed

lemma entropy_spec_bounds:
  assumes "ps \<noteq> []"
  shows "0 \<le> entropy_spec ps" and "entropy_spec ps \<le> log 2 (real (length ps))"
    and "entropy_spec ps = 0 \<longleftrightarrow> (\<forall>x\<in>set ps. \<forall>y\<in>set ps. x = y)"
proof -
  let ?n = "length ps"
  let ?t = "\<lambda>x. - (real (count_list ps x) / real ?n) * log 2 (real (count_list ps x) / real ?n)"
  have e: "entropy_spec ps = (\<Sum>x\<in>set ps. ?t x)"
    by (simp add: entropy_spec_def sum_negf)
  have c: "\<And>x. x \<in> set ps \<Longrightarrow> 0 < count_list ps x \<and> count_list ps x \<le> ?n"
    using count_list_0_iff[of ps] count_le_length[of ps] by (metis neq0_conv)
  have nn: "\<And>x. x \<in> set ps \<Longrightarrow> 0 \<le> ?t x"
    using entropy_term_bounds(1) c by blast
  show "0 \<le> entropy_spec ps" unfolding e by (rule sum_nonneg) (rule nn)
  have "(\<Sum>x\<in>set ps. ?t x) \<le> (\<Sum>x\<in>set ps. (real (count_list ps x) / real ?n) * log 2 (real ?n))"
    by (rule sum_mono) (use entropy_term_bounds(2) c in blast)
  also have "\<dots> = (\<Sum>x\<in>set ps. real (count_list ps x)) / real ?n * log 2 (real ?n)"
    by (simp add: sum_distrib_right sum_divide_distrib)
  also have "(\<Sum>x\<in>set ps. real (count_list ps x)) = real ?n"
    using sum_count_set[of ps "set ps"] by (metis List.finite_set of_nat_sum order_refl)
  also have "real ?n / real ?n * log 2 (real ?n) = log 2 (real ?n)"
    using assms by simp
  finally show "entropy_spec ps \<le> log 2 (real (length ps))" unfolding e .
  have "entropy_spec ps = 0 \<longleftrightarrow> (\<forall>x\<in>set ps. ?t x = 0)"
    unfolding e by (rule sum_nonneg_eq_0_iff) (use nn in auto)
  also have "\<dots> \<longleftrightarrow> (\<forall>x\<in>set ps. count_list ps x = ?n)"
    using entropy_term_bounds(3) c by (metis (no_types, lifting))
  also have "\<dots> \<longleftrightarrow> (\<forall>x\<in>set ps. \<forall>y\<in>set ps. y = x)"
    by (simp add: count_list_full_iff)
  finally show "entropy_spec ps = 0 \<longleftrightarrow> (\<forall>x\<in>set ps. \<forall>y\<in>set ps. x = y)" by blast
qed


lemma entropy_of_guess_exact_bounds:
  assumes "length guess = 5" and "\<forall>w\<in>set candidates. length w = 5" and "candidates \<noteq> []"
  shows "\<exists>e ps. entropy_of_guess exact_ops guess candidates = Inr e
     \<and> map (pattern_for guess) candidates = map Inr ps
     \<and> e = entropy_spec ps
     \<and> 0 \<le> e \<and> e \<le> log 2 (real (length candidates))
     \<and> (e = 0 \<longleftrightarrow> (\<forall>w\<in>set candidates. \<forall>w'\<in>set candidates.
                        pattern_for guess w = pattern_for guess w'))"
proof -
  define f where "f = (\<lambda>w. projr (pattern_for guess w))"
  let ?ps = "map f candidates"
  have tot: "\<forall>w\<in>set candidates. pattern_for guess w = Inr (f w)"
    unfolding f_def using assms(1,2) pattern_for_total[of guess] by (metis order_refl)
  have e: "entropy_of_guess exact_ops guess candidates = Inr (entropy_spec ?ps)"
    by (rule entropy_of_guess_formula[OF tot assms(3)])
  have m: "map (pattern_for guess) candidates = map Inr ?ps"
    using tot by simp
  have ne: "?ps \<noteq> []" using assms(3) by simp
  have "(\<forall>x\<in>set ?ps. \<forall>y\<in>set ?ps. x = y) \<longleftrightarrow>
        (\<forall>w\<in>set candidates. \<forall>w'\<in>set candidates. f w = f w')"
    by auto
  also have "\<dots> \<longleftrightarrow>
        (\<forall>w\<in>set candidates. \<forall>w'\<in>set candidates. pattern_for guess w = pattern_for guess w')"
    using tot by (metis sum.inject(2))
  finally have z: "(\<forall>x\<in>set ?ps. \<forall>y\<in>set ?ps. x = y) \<longleftrightarrow>
        (\<forall>w\<in>set candidates. \<forall>w'\<in>set candidates. pattern_for guess w = pattern_for guess w')" .
  have b: "0 \<le> entropy_spec ?ps" "entropy_spec ?ps \<le> log 2 (real (length candidates))"
    "entropy_spec ?ps = 0 \<longleftrightarrow> (\<forall>x\<in>set ?ps. \<forall>y\<in>set ?ps. x = y)"
    using entropy_spec_bounds[OF ne] by simp_all
  show ?thesis
    using e m b z by (intro exI[of _ "entropy_spec ?ps"] exI[of _ ?ps]) blast
qed


section \<open>Properties of the scan for the best guess\<close>

lemma find_snoc:
  "List.find P (xs @ [x]) = (case List.find P xs of None \<Rightarrow> (if P x then Some x else None) | Some y \<Rightarrow> Some y)"
  by (induction xs) auto

lemma best_entropy_step_eq:
  assumes "entropy_of_guess ops g candidates = Inr e"
  shows "best_entropy_step ops candidates g (best_g, best_e) =
     Inr (if e > best_e \<or> (e = best_e \<and> g \<in> set candidates \<and> best_g \<notin> Some ` set candidates)
          then (Some g, e) else (best_g, best_e))"
  using assms by (cases best_g) (auto simp: best_entropy_step_def)

lemma best_entropy_loop_snoc:
  "best_entropy_loop ops (pool @ [g]) candidates st =
     (case best_entropy_loop ops pool candidates st of
        Inl err \<Rightarrow> Inl err
      | Inr st' \<Rightarrow> best_entropy_step ops candidates g st')"
  by (induction pool arbitrary: st) (auto split: sum.splits)

lemma best_entropy_step_member:
  "best_entropy_step ops candidates g st = Inr (bg, be) \<Longrightarrow> bg = fst st \<or> bg = Some g"
  by (cases st) (auto simp: best_entropy_step_def split: sum.splits if_splits)

lemma best_entropy_loop_member:
  "best_entropy_loop ops pool candidates st = Inr (bg, be) \<Longrightarrow> bg = fst st \<or> bg \<in> Some ` set pool"
proof (induction pool arbitrary: st)
  case Nil
  then show ?case by auto
next
  case (Cons g pool)
  then obtain st' where s: "best_entropy_step ops candidates g st = Inr st'"
    and l: "best_entropy_loop ops pool candidates st' = Inr (bg, be)"
    by (auto split: sum.splits)
  from Cons.IH[OF l] best_entropy_step_member[of ops candidates g st "fst st'" "snd st'"] s
  show ?case by auto
qed

lemma best_entropy_loop_best:
  assumes "pool \<noteq> []" and "\<forall>w\<in>set pool. 5 \<le> length w" and c: "\<forall>w\<in>set candidates. 5 \<le> length w"
    and sane: "float_ops_sane ops (int (length candidates))"
  shows "\<exists>w e. best_entropy_loop ops pool candidates (None, - 1) = Inr (Some w, e)
               \<and> best_so_far ops candidates pool w e"
  using assms(1,2)
proof (induction pool rule: rev_nonempty_induct)
  case (single x)
  then have "5 \<le> length x" by simp
  from entropy_of_guess_total[OF sane this c] obtain e where
    e: "entropy_of_guess ops x candidates = Inr e" "0 \<le> e" by blast
  have "best_entropy_loop ops [x] candidates (None, - 1) = Inr (Some x, e)"
    using e by (simp add: best_entropy_step_eq[OF e(1)])
  moreover have "best_so_far ops candidates [x] x e"
    using e by (simp add: best_so_far_def)
  ultimately show ?case by blast
next
  case (snoc x xs)
  then have vx: "5 \<le> length x" and vxs: "\<forall>w\<in>set xs. 5 \<le> length w" by simp_all
  from snoc.IH[OF vxs] obtain w e where
    l: "best_entropy_loop ops xs candidates (None, - 1) = Inr (Some w, e)"
    and inv: "best_so_far ops candidates xs w e" by blast
  from entropy_of_guess_total[OF sane vx c] obtain ex where
    ex: "entropy_of_guess ops x candidates = Inr ex" by blast
  have w: "w \<in> set xs" and ew: "entropy_of_guess ops w candidates = Inr e"
    and mx: "\<forall>w'\<in>set xs. \<exists>e'. entropy_of_guess ops w' candidates = Inr e' \<and> e' \<le> e"
    and pref: "(\<exists>w'\<in>set xs. w' \<in> set candidates \<and> entropy_of_guess ops w' candidates = Inr e)
          \<longrightarrow> w \<in> set candidates"
    and fnd: "List.find (\<lambda>w'. entropy_of_guess ops w' candidates = Inr e
                        \<and> (w' \<in> set candidates \<longleftrightarrow> w \<in> set candidates)) xs = Some w"
    using inv by (simp_all add: best_so_far_def)
  have step: "best_entropy_loop ops (xs @ [x]) candidates (None, - 1) =
     Inr (if ex > e \<or> (ex = e \<and> x \<in> set candidates \<and> w \<notin> set candidates)
          then (Some x, ex) else (Some w, e))"
    using l best_entropy_step_eq[OF ex, of "Some w" e]
    by (auto simp: best_entropy_loop_snoc)
  show ?case
  proof (cases "ex > e \<or> (ex = e \<and> x \<in> set candidates \<and> w \<notin> set candidates)")
    case False
    then have le: "ex \<le> e" and nt: "ex = e \<Longrightarrow> x \<in> set candidates \<Longrightarrow> w \<in> set candidates"
      by auto
    have "best_entropy_loop ops (xs @ [x]) candidates (None, - 1) = Inr (Some w, e)"
      using step False by simp
    moreover have "best_so_far ops candidates (xs @ [x]) w e"
      unfolding best_so_far_def
      using w ew mx pref fnd ex le nt by (auto simp: find_snoc)
    ultimately show ?thesis by blast
  next
    case True
    have upd: "best_entropy_loop ops (xs @ [x]) candidates (None, - 1) = Inr (Some x, ex)"
      using step True by simp
    have mx': "\<forall>w'\<in>set (xs @ [x]). \<exists>e'. entropy_of_guess ops w' candidates = Inr e' \<and> e' \<le> ex"
      using mx ex True by fastforce
    have none: "List.find (\<lambda>w'. entropy_of_guess ops w' candidates = Inr ex
                        \<and> (w' \<in> set candidates \<longleftrightarrow> x \<in> set candidates)) xs = None"
    proof (cases "ex > e")
      case True
      then show ?thesis using mx by (fastforce simp: find_None_iff)
    next
      case False
      then have t: "ex = e" "x \<in> set candidates" "w \<notin> set candidates" using True by auto
      then have "\<forall>w'\<in>set xs. entropy_of_guess ops w' candidates = Inr e \<longrightarrow> w' \<notin> set candidates"
        using pref by blast
      then show ?thesis using t by (auto simp: find_None_iff)
    qed
    have pref': "(\<exists>w'\<in>set (xs @ [x]). w' \<in> set candidates \<and> entropy_of_guess ops w' candidates = Inr ex)
          \<longrightarrow> x \<in> set candidates"
    proof (cases "ex > e")
      case True
      then show ?thesis using mx by fastforce
    next
      case False
      then show ?thesis using True by auto
    qed
    have "best_so_far ops candidates (xs @ [x]) x ex"
      unfolding best_so_far_def using ex mx' none pref' by (simp add: find_snoc)
    then show ?thesis using upd by blast
  qed
qed


text \<open>
  Claim C4. With more than 30 candidates \<^verbatim>\<open>best_entropy_guess\<close> scans the allowed
  list, and the word it returns is one of the allowed words; with 30 candidates or fewer it
  scans the candidates, the word it returns is a candidate, and the allowed list has no
  influence on the result.
\<close>

theorem best_entropy_guess_pool:
  "(length candidates > 30 \<longrightarrow>
      best_entropy_guess ops candidates allowed = best_entropy_loop ops allowed candidates (None, - 1)
      \<and> (\<forall>w e. best_entropy_guess ops candidates allowed = Inr (Some w, e) \<longrightarrow> w \<in> set allowed))
   \<and> (length candidates \<le> 30 \<longrightarrow>
      best_entropy_guess ops candidates allowed = best_entropy_loop ops candidates candidates (None, - 1)
      \<and> (\<forall>w e. best_entropy_guess ops candidates allowed = Inr (Some w, e) \<longrightarrow> w \<in> set candidates)
      \<and> best_entropy_guess ops candidates allowed = best_entropy_guess ops candidates [])"
proof -
  have "\<And>pool w e. best_entropy_loop ops pool candidates (None, - 1) = Inr (Some w, e) \<Longrightarrow> w \<in> set pool"
    using best_entropy_loop_member by fastforce
  then show ?thesis by (auto simp: best_entropy_guess_def)
qed


theorem best_entropy_guess_pool_witness:
  "length (replicate 31 ''crane'') > 30 \<and> length (replicate 30 ''crane'') \<le> 30
   \<and> best_entropy_guess exact_ops (replicate 31 ''crane'') [''slate''] = Inr (Some ''slate'', 0)
   \<and> best_entropy_guess exact_ops (replicate 30 ''crane'') [''slate''] = Inr (Some ''crane'', 0)"
proof -
  define c31 where "c31 = replicate 31 ''crane''"
  define c30 where "c30 = replicate 30 ''crane''"
  have a: "length c31 > 30" and b: "length c30 \<le> 30"
    by (simp_all add: c31_def c30_def)
  have e1: "entropy_of_guess exact_ops ''slate'' c31 = Inr 0"
    by (simp add: c31_def entropy_of_guess_def bucket_incr_def defaultdict_get_def
        eval_nat_numeral pattern_slate_crane exact_ops_def)
  have e2: "entropy_of_guess exact_ops ''crane'' c30 = Inr 0"
    by (simp add: c30_def entropy_of_guess_def bucket_incr_def defaultdict_get_def
        eval_nat_numeral pattern_crane_crane exact_ops_def)
  have m: "''crane'' \<in> set c30" by (simp add: c30_def)
  have l1: "best_entropy_loop exact_ops [''slate''] c31 (None, - 1) = Inr (Some ''slate'', 0)"
    by (simp add: best_entropy_step_def e1)
  have l2: "best_entropy_loop exact_ops (replicate 30 ''crane'') c30 (None, - 1) = Inr (Some ''crane'', 0)"
    by (simp add: eval_nat_numeral best_entropy_step_def e2 m)
  have "best_entropy_guess exact_ops c31 [''slate''] = Inr (Some ''slate'', 0)"
    using best_entropy_guess_pool[of c31 exact_ops "[''slate'']"] a l1 by simp
  moreover have "best_entropy_guess exact_ops c30 [''slate''] = Inr (Some ''crane'', 0)"
    using best_entropy_guess_pool[of c30 exact_ops "[''slate'']"] b l2 by (simp add: c30_def)
  ultimately show ?thesis using a b by (simp add: c31_def c30_def)
qed

text \<open>
  Claim C5. In the scan, a guess of entropy \<open>e\<close> replaces the current best
  \<open>(best_g, best_e)\<close> exactly when \<open>e > best_e\<close>, or \<open>e = best_e\<close> and the guess
  is a candidate while the current best is not. Hence, for a non-empty pool of words of
  length 5 (and candidates of length 5), the word returned is in the pool and its entropy
  is the greatest of the pool; if some word of the pool with that entropy is a candidate,
  the word returned is a candidate; and the word returned is the first word of the pool
  among the words of greatest entropy that are candidates or not as it is. The entropies
  are the values \<^verbatim>\<open>entropy_of_guess\<close> computes, whatever the rounding of the
  arithmetic is, as long as it keeps the signs (\<^const>\<open>float_ops_sane\<close>).
\<close>

theorem best_entropy_guess_scan_rule:
  "(entropy_of_guess ops g candidates = Inr e \<longrightarrow>
      best_entropy_step ops candidates g (best_g, best_e) =
        Inr (if e > best_e \<or> (e = best_e \<and> g \<in> set candidates \<and> best_g \<notin> Some ` set candidates)
             then (Some g, e) else (best_g, best_e)))
   \<and> (float_ops_sane ops (int (length candidates))
       \<and> pool = (if length candidates > 30 then allowed else candidates) \<and> pool \<noteq> []
       \<and> (\<forall>w\<in>set pool. length w = 5) \<and> (\<forall>w\<in>set candidates. length w = 5) \<longrightarrow>
      (\<exists>w m. best_entropy_guess ops candidates allowed = Inr (Some w, m)
         \<and> w \<in> set pool \<and> entropy_of_guess ops w candidates = Inr m
         \<and> (\<forall>w'\<in>set pool. \<exists>e'. entropy_of_guess ops w' candidates = Inr e' \<and> e' \<le> m)
         \<and> ((\<exists>w'\<in>set pool. w' \<in> set candidates \<and> entropy_of_guess ops w' candidates = Inr m)
              \<longrightarrow> w \<in> set candidates)
         \<and> List.find (\<lambda>w'. entropy_of_guess ops w' candidates = Inr m
                            \<and> (w' \<in> set candidates \<longleftrightarrow> w \<in> set candidates)) pool = Some w))"
proof (intro conjI impI)
  assume "entropy_of_guess ops g candidates = Inr e"
  then show "best_entropy_step ops candidates g (best_g, best_e) =
        Inr (if e > best_e \<or> (e = best_e \<and> g \<in> set candidates \<and> best_g \<notin> Some ` set candidates)
             then (Some g, e) else (best_g, best_e))"
    by (rule best_entropy_step_eq)
next
  assume a: "float_ops_sane ops (int (length candidates))
       \<and> pool = (if length candidates > 30 then allowed else candidates) \<and> pool \<noteq> []
       \<and> (\<forall>w\<in>set pool. length w = 5) \<and> (\<forall>w\<in>set candidates. length w = 5)"
  then have p: "pool \<noteq> []" and sane: "float_ops_sane ops (int (length candidates))" by blast+
  have vp: "\<forall>w\<in>set pool. 5 \<le> length w" using a by (metis order_refl)
  have vc: "\<forall>w\<in>set candidates. 5 \<le> length w" using a by (metis order_refl)
  have d: "best_entropy_guess ops candidates allowed = best_entropy_loop ops pool candidates (None, - 1)"
    using a by (simp add: best_entropy_guess_def)
  from best_entropy_loop_best[OF p vp vc sane] obtain w m where
    "best_entropy_loop ops pool candidates (None, - 1) = Inr (Some w, m)"
    "best_so_far ops candidates pool w m" by blast
  then show "\<exists>w m. best_entropy_guess ops candidates allowed = Inr (Some w, m)
         \<and> w \<in> set pool \<and> entropy_of_guess ops w candidates = Inr m
         \<and> (\<forall>w'\<in>set pool. \<exists>e'. entropy_of_guess ops w' candidates = Inr e' \<and> e' \<le> m)
         \<and> ((\<exists>w'\<in>set pool. w' \<in> set candidates \<and> entropy_of_guess ops w' candidates = Inr m)
              \<longrightarrow> w \<in> set candidates)
         \<and> List.find (\<lambda>w'. entropy_of_guess ops w' candidates = Inr m
                            \<and> (w' \<in> set candidates \<longleftrightarrow> w \<in> set candidates)) pool = Some w"
    unfolding d best_so_far_def by blast
qed

theorem best_entropy_guess_scan_rule_witness:
  "entropy_of_guess exact_ops ''crane'' (replicate 31 ''crane'') = Inr 0
   \<and> best_entropy_step exact_ops (replicate 31 ''crane'') ''crane'' (Some ''slate'', 0) = Inr (Some ''crane'', 0)
   \<and> float_ops_sane exact_ops (int (length (replicate 31 ''crane'')))
   \<and> [''slate'', ''crane''] = (if length (replicate 31 ''crane'') > 30 then [''slate'', ''crane''] else replicate 31 ''crane'')
   \<and> [''slate'', ''crane''] \<noteq> []
   \<and> list_all (\<lambda>w. length w = 5) [''slate'', ''crane'']
   \<and> list_all (\<lambda>w. length w = 5) (replicate 31 ''crane'')
   \<and> best_entropy_guess exact_ops (replicate 31 ''crane'') [''slate'', ''crane''] = Inr (Some ''crane'', 0)"
proof -
  define c31 where "c31 = replicate 31 ''crane''"
  have e1: "entropy_of_guess exact_ops ''slate'' c31 = Inr 0"
    by (simp add: c31_def entropy_of_guess_def bucket_incr_def defaultdict_get_def
        eval_nat_numeral pattern_slate_crane exact_ops_def)
  have e2: "entropy_of_guess exact_ops ''crane'' c31 = Inr 0"
    by (simp add: c31_def entropy_of_guess_def bucket_incr_def defaultdict_get_def
        eval_nat_numeral pattern_crane_crane exact_ops_def)
  have m: "''crane'' \<in> set c31" "''slate'' \<notin> set c31" by (simp_all add: c31_def)
  have sane: "float_ops_sane exact_ops (int (length c31))" by (rule exact_ops_sane)
  have h0: "[''slate'', ''crane''] = (if length c31 > 30 then [''slate'', ''crane''] else c31)
      \<and> [''slate'', ''crane''] \<noteq> []
      \<and> (\<forall>w\<in>set [''slate'', ''crane'']. length w = 5) \<and> (\<forall>w\<in>set c31. length w = 5)"
    by (simp add: c31_def)
  have h: "float_ops_sane exact_ops (int (length c31))
      \<and> [''slate'', ''crane''] = (if length c31 > 30 then [''slate'', ''crane''] else c31)
      \<and> [''slate'', ''crane''] \<noteq> []
      \<and> (\<forall>w\<in>set [''slate'', ''crane'']. length w = 5) \<and> (\<forall>w\<in>set c31. length w = 5)"
    using sane h0 by blast
  have h': "[''slate'', ''crane''] = (if length c31 > 30 then [''slate'', ''crane''] else c31)"
    "[''slate'', ''crane''] \<noteq> []"
    "list_all (\<lambda>w. length w = 5) [''slate'', ''crane'']"
    "list_all (\<lambda>w. length w = 5) c31"
    by (simp_all add: c31_def list_all_iff)
  have s: "best_entropy_step exact_ops c31 ''crane'' (Some ''slate'', 0) = Inr (Some ''crane'', 0)"
    using best_entropy_guess_scan_rule[of exact_ops "''crane''" c31 0 "Some ''slate''" 0] e2 m by auto
  from best_entropy_guess_scan_rule[of exact_ops "''crane''" c31 0 None 0 "[''slate'', ''crane'']" "[''slate'', ''crane'']"] h
  obtain w mx where r: "best_entropy_guess exact_ops c31 [''slate'', ''crane''] = Inr (Some w, mx)"
    and w: "w \<in> set [''slate'', ''crane'']" and ew: "entropy_of_guess exact_ops w c31 = Inr mx"
    and pref: "(\<exists>w'\<in>set [''slate'', ''crane'']. w' \<in> set c31 \<and> entropy_of_guess exact_ops w' c31 = Inr mx) \<longrightarrow> w \<in> set c31"
    by blast
  have "mx = 0" using w ew e1 e2 by auto
  then have "w \<in> set c31" using pref e2 m by auto
  then have "w = ''crane''" using w m by auto
  then have "best_entropy_guess exact_ops c31 [''slate'', ''crane''] = Inr (Some ''crane'', 0)"
    using r \<open>mx = 0\<close> by simp
  then show ?thesis using e2 s sane h' unfolding c31_def by blast
qed

end
